theory Spec2Isabelle
  imports Main "HOL-Library.Word" "HOL-Library.Signed_Division"
begin

section \<open>C integers and formatted output\<close>

text \<open>
  Both programs compute with C's \<open>int\<close>, taken here as the 32-bit two's complement
  integer of the usual targets. ISO C leaves signed overflow undefined; the model takes
  the wrap-around that these targets produce, so \<open>+\<close>, \<open>-\<close> and \<open>*\<close> are the
  operations of \<open>32 word\<close>, comparisons are the signed ones (\<open><s\<close>, \<open>\<le>s\<close>) and a
  value is read with \<open>sint\<close>.
\<close>

type_synonym cint = "32 word"

text \<open>
  C's \<open>/\<close> on \<open>int\<close> truncates towards zero. Both programs divide by 2 only, so
  the undefined cases of \<open>/\<close> (a zero divisor, \<open>INT_MIN / -1\<close>) do not arise.
\<close>

definition c_div :: "cint \<Rightarrow> cint \<Rightarrow> cint" where
  "c_div a b = word_of_int (sint a sdiv sint b)"

text \<open>
  What \<open>printf\<close> writes for the conversion \<open>%d\<close> (C library, not part of the
  repository): the decimal digits of the value, most significant first, after a minus
  sign when it is negative.
\<close>

function dec_digits :: "nat \<Rightarrow> string" where
  "dec_digits k =
     (if k < 10 then [''0123456789'' ! k]
      else dec_digits (k div 10) @ [''0123456789'' ! (k mod 10)])"
  by pat_completeness auto
termination
  by (relation "measure (\<lambda>k. k)") auto

declare dec_digits.simps [simp del]

definition decimal :: "int \<Rightarrow> string" where
  "decimal v = (if v < 0 then ''-'' @ dec_digits (nat (- v)) else dec_digits (nat v))"

definition fmt_d :: "cint \<Rightarrow> string" where
  "fmt_d v = decimal (sint v)"

section \<open>concentric\_square.c\<close>

text \<open>\<^verbatim>\<open>#define MAX(a, b) ((a) > (b) ? (a) : (b))\<close>\<close>

definition MAX_int :: "cint \<Rightarrow> cint \<Rightarrow> cint" where
  "MAX_int a b = (if b <s a then a else b)"

text \<open>
  The value that the body of the inner loop of \<open>print_concentric_square\<close> passes to
  \<open>printf("%d ", ...)\<close> at row \<open>i\<close>, column \<open>j\<close>.
\<close>

definition cell_value :: "cint \<Rightarrow> cint \<Rightarrow> cint \<Rightarrow> cint \<Rightarrow> cint" where
  "cell_value n m i j =
     (if i + j <s m then MAX_int (n - i) (n - j) else MAX_int (i - n) (j - n) + 2)"

text \<open>
  A loop counter below its signed bound is below \<open>INT_MAX\<close>, so its increment does
  not wrap. This is what makes the \<open><\<close>-bounded loops terminate.
\<close>

lemma sint_succ:
  fixes j m :: cint
  assumes "j <s m"
  shows "sint (j + 1) = sint j + 1"
proof -
  from assms have "sint j < sint m"
    by (simp add: word_sless_alt)
  moreover have "sint m < 2 ^ 31"
    using sint_lt [of m] by simp
  moreover have "- (2 ^ 31) \<le> sint j"
    using sint_ge [of j] by simp
  ultimately have "- (2 ^ 31) \<le> sint j + 1 \<and> sint j + 1 < 2 ^ 31"
    by simp
  then show ?thesis
    by (simp add: sint_word_add signed_take_bit_int_eq_self)
qed

text \<open>The inner loop \<^verbatim>\<open>for (int j = 0; j < m; j++)\<close>, from column \<open>j\<close> on.\<close>

function square_cols :: "cint \<Rightarrow> cint \<Rightarrow> cint \<Rightarrow> cint \<Rightarrow> string" where
  "square_cols n m i j =
     (if j <s m then (fmt_d (cell_value n m i j) @ '' '') @ square_cols n m i (j + 1)
      else [])"
  by pat_completeness auto
termination
  by (relation "measure (\<lambda>(n, m, i, j). nat (sint m - sint j))")
     (auto simp: word_sless_alt sint_succ)

text \<open>The outer loop \<^verbatim>\<open>for (int i = 0; i < m; i++)\<close>, from row \<open>i\<close> on.\<close>

function square_rows :: "cint \<Rightarrow> cint \<Rightarrow> cint \<Rightarrow> string" where
  "square_rows n m i =
     (if i <s m then square_cols n m i 0 @ ''\<newline>'' @ square_rows n m (i + 1)
      else [])"
  by pat_completeness auto
termination
  by (relation "measure (\<lambda>(n, m, i). nat (sint m - sint i))")
     (auto simp: word_sless_alt sint_succ)

declare square_cols.simps [simp del] square_rows.simps [simp del]

definition print_concentric_square :: "cint \<Rightarrow> string" where
  "print_concentric_square n =
     (if n \<le>s 0 then ''Error: n must be a positive integer\<newline>''
      else let m = 2 * n - 1 in square_rows n m 0)"

text \<open>The two loops of \<open>visualize_regions\<close>.\<close>

function region_cols :: "cint \<Rightarrow> cint \<Rightarrow> cint \<Rightarrow> string" where
  "region_cols m i j =
     (if j <s m then (if i + j <s m then ''U '' else ''L '') @ region_cols m i (j + 1)
      else [])"
  by pat_completeness auto
termination
  by (relation "measure (\<lambda>(m, i, j). nat (sint m - sint j))")
     (auto simp: word_sless_alt sint_succ)

function region_rows :: "cint \<Rightarrow> cint \<Rightarrow> string" where
  "region_rows m i =
     (if i <s m then region_cols m i 0 @ ''\<newline>'' @ region_rows m (i + 1)
      else [])"
  by pat_completeness auto
termination
  by (relation "measure (\<lambda>(m, i). nat (sint m - sint i))")
     (auto simp: word_sless_alt sint_succ)

declare region_cols.simps [simp del] region_rows.simps [simp del]

definition visualize_regions :: "cint \<Rightarrow> string" where
  "visualize_regions n =
     (let m = 2 * n - 1 in
      ''Region visualization (U = Upper-left, L = Lower-right):\<newline>''
      @ region_rows m 0 @ ''\<newline>'')"

text \<open>
  \<open>main\<close> of concentric\_square.c: the text written and the exit status. The standard
  input enters through what \<open>scanf("%d", &size)\<close> (C library) did with it: its return
  value \<open>ret\<close> (1 when it stored an integer, 0 when the token is no integer, \<open>EOF\<close> at
  the end of the input) and the value \<open>size_n\<close> it stored in \<open>size\<close>, which is read
  only when \<open>ret\<close> is 1.
\<close>

definition square_banner :: string where
  "square_banner =
     ''Concentric Square Pattern - Diagonal Decomposition\<newline>''
     @ ''==================================================\<newline>\<newline>''
     @ ''Enter the size parameter n: ''"

definition main_square :: "int \<Rightarrow> cint \<Rightarrow> string \<times> int" where
  "main_square ret size_n =
     (if ret \<noteq> 1
      then (square_banner @ ''Invalid input. Please enter a positive integer.\<newline>'', 1)
      else
        (square_banner @ ''\<newline>''
         @ (if size_n \<le>s 7 then visualize_regions size_n else [])
         @ ''Concentric square pattern:\<newline>''
         @ print_concentric_square size_n
         @ ''\<newline>''
         @ ''\<newline>Examples of other sizes:\<newline>''
         @ ''------------------------\<newline>\<newline>''
         @ ''n = 3:\<newline>''
         @ print_concentric_square 3
         @ ''\<newline>n = 5:\<newline>''
         @ print_concentric_square 5, 0))"

section \<open>triangle.c\<close>

text \<open>
  The single loop \<^verbatim>\<open>for (int i = 1; i <= total; i++)\<close> of \<open>print_triangle\<close>, with the
  text written so far. With \<open>total = INT_MAX\<close> the test \<open>i <= total\<close> never fails, so
  the loop is a partial function: \<open>None\<close> is the run that does not return.
\<close>

partial_function (option) triangle_loop :: "cint \<Rightarrow> cint \<Rightarrow> cint \<Rightarrow> string \<Rightarrow> string option" where
  "triangle_loop total_n row i out =
     (if i \<le>s total_n then
        (if i = c_div (row * (row + 1)) 2
         then triangle_loop total_n (row + 1) (i + 1) (out @ ''* '' @ ''\<newline>'')
         else triangle_loop total_n row (i + 1) (out @ ''* ''))
      else Some out)"

declare triangle_loop.simps [code]

definition print_triangle :: "cint \<Rightarrow> string option" where
  "print_triangle n =
     (if n \<le>s 0 then Some ''Error: n must be a positive integer\<newline>''
      else let total_n = c_div (n * (n + 1)) 2 in triangle_loop total_n 1 1 [])"

definition triangle_banner :: string where
  "triangle_banner =
     ''Right Triangle Pattern - Single Loop Implementation\<newline>''
     @ ''===================================================\<newline>\<newline>''
     @ ''Enter the height of the triangle: ''"

text \<open>
  \<open>main\<close> of triangle.c, with the same two inputs; \<open>None\<close> when a call of
  \<open>print_triangle\<close> does not return.
\<close>

definition main_triangle :: "int \<Rightarrow> cint \<Rightarrow> (string \<times> int) option" where
  "main_triangle ret size_n =
     (if ret \<noteq> 1
      then Some (triangle_banner @ ''Invalid input. Please enter a positive integer.\<newline>'', 1)
      else
        (case print_triangle size_n of None \<Rightarrow> None | Some o1 \<Rightarrow>
         case print_triangle 3 of None \<Rightarrow> None | Some o2 \<Rightarrow>
         case print_triangle 6 of None \<Rightarrow> None | Some o3 \<Rightarrow>
           Some (triangle_banner @ ''\<newline>''
                 @ o1
                 @ ''\<newline>''
                 @ ''\<newline>Examples of other sizes:\<newline>''
                 @ ''------------------------\<newline>\<newline>''
                 @ ''n = 3:\<newline>''
                 @ o2
                 @ ''\<newline>n = 6:\<newline>''
                 @ o3, 0)))"

section \<open>Reference definitions\<close>

text \<open>The values of a C \<open>int\<close>: \<open>INT_MIN\<close> to \<open>INT_MAX\<close>.\<close>

definition int_ok :: "int \<Rightarrow> bool" where
  "int_ok x \<longleftrightarrow> - 2147483648 \<le> x \<and> x \<le> 2147483647"

text \<open>
  The output format of the square: every integer is followed by one space, every row by a
  line break.
\<close>

definition render_row :: "int list \<Rightarrow> string" where
  "render_row vs = concat (map (\<lambda>v. decimal v @ '' '') vs)"

definition render_grid :: "int list list \<Rightarrow> string" where
  "render_grid g = concat (map (\<lambda>r. render_row r @ ''\<newline>'') g)"

text \<open>
  The values of the cells that \<open>print_concentric_square n\<close> prints, row by row: row
  and column run from 0 to \<open>m - 1\<close> for the \<open>m\<close> that the function computed.
\<close>

definition cell_grid :: "cint \<Rightarrow> int list list" where
  "cell_grid n =
     (let m = 2 * n - 1 in
      map (\<lambda>r. map (\<lambda>c. sint (cell_value n m (word_of_int r) (word_of_int c))) [0..sint m - 1])
        [0..sint m - 1])"

text \<open>
  The usual definition of the concentric pattern, over the integers: \<open>n\<close> less the
  distance of the cell from the nearest edge of the \<open>m \<times> m\<close> grid, \<open>m = 2n - 1\<close>.
\<close>

definition ring_value :: "int \<Rightarrow> int \<Rightarrow> int \<Rightarrow> int" where
  "ring_value n i j = (let m = 2 * n - 1 in n - min (min i j) (min (m - 1 - i) (m - 1 - j)))"

text \<open>The triangular numbers \<open>T(k) = k(k+1)/2\<close>.\<close>

definition tri :: "nat \<Rightarrow> nat" where
  "tri k = k * (k + 1) div 2"

text \<open>
  The triangle as text: row \<open>k\<close> is \<open>k\<close> glyphs \<^verbatim>\<open>"* "\<close> and a line break; the triangle
  of height \<open>n\<close> is the rows 1 to \<open>n\<close>.
\<close>

definition triangle_row :: "nat \<Rightarrow> string" where
  "triangle_row k = concat (replicate k ''* '') @ ''\<newline>''"

definition triangle_text :: "nat \<Rightarrow> string" where
  "triangle_text n = concat (map triangle_row [1..<Suc n])"

text \<open>
  The other split, the one that the comments of the source describe: the anti-diagonal
  \<open>i + j = m - 1\<close> goes to the lower-right region.
\<close>

definition cell_value_alt :: "cint \<Rightarrow> cint \<Rightarrow> cint \<Rightarrow> cint \<Rightarrow> cint" where
  "cell_value_alt n m i j =
     (if i + j <s m - 1 then MAX_int (n - i) (n - j) else MAX_int (i - n) (j - n) + 2)"

text \<open>
  The text that ends every run of the two programs that parsed an integer: the heading
  and the patterns of the two fixed sizes.
\<close>

definition square_examples :: string where
  "square_examples =
     ''\<newline>Examples of other sizes:\<newline>''
   @ ''------------------------\<newline>\<newline>''
   @ ''n = 3:\<newline>''
   @ ''3 3 3 3 3 \<newline>''
   @ ''3 2 2 2 3 \<newline>''
   @ ''3 2 1 2 3 \<newline>''
   @ ''3 2 2 2 3 \<newline>''
   @ ''3 3 3 3 3 \<newline>''
   @ ''\<newline>n = 5:\<newline>''
   @ ''5 5 5 5 5 5 5 5 5 \<newline>''
   @ ''5 4 4 4 4 4 4 4 5 \<newline>''
   @ ''5 4 3 3 3 3 3 4 5 \<newline>''
   @ ''5 4 3 2 2 2 3 4 5 \<newline>''
   @ ''5 4 3 2 1 2 3 4 5 \<newline>''
   @ ''5 4 3 2 2 2 3 4 5 \<newline>''
   @ ''5 4 3 3 3 3 3 4 5 \<newline>''
   @ ''5 4 4 4 4 4 4 4 5 \<newline>''
   @ ''5 5 5 5 5 5 5 5 5 \<newline>''"

definition triangle_examples :: string where
  "triangle_examples =
     ''\<newline>Examples of other sizes:\<newline>''
   @ ''------------------------\<newline>\<newline>''
   @ ''n = 3:\<newline>''
   @ ''* \<newline>''
   @ ''* * \<newline>''
   @ ''* * * \<newline>''
   @ ''\<newline>n = 6:\<newline>''
   @ ''* \<newline>''
   @ ''* * \<newline>''
   @ ''* * * \<newline>''
   @ ''* * * * \<newline>''
   @ ''* * * * * \<newline>''
   @ ''* * * * * * \<newline>''"

section \<open>Arithmetic of \<open>int\<close> within its range\<close>

text \<open>
  Where the mathematical result of an operation fits an \<open>int\<close>, the operation on
  \<open>cint\<close> computes it.
\<close>

lemma sint_ok: "int_ok (sint (a::cint))"
  using sint_ge [of a] sint_lt [of a] by (simp add: int_ok_def)

lemma sint_of_int_ok: "int_ok x \<Longrightarrow> sint (word_of_int x :: cint) = x"
  by (simp add: int_ok_def sint_sbintrunc' signed_take_bit_int_eq_self)

lemma sint_add_ok: "int_ok (sint a + sint b) \<Longrightarrow> sint (a + b :: cint) = sint a + sint b"
  by (simp add: int_ok_def sint_word_add signed_take_bit_int_eq_self)

lemma sint_sub_ok: "int_ok (sint a - sint b) \<Longrightarrow> sint (a - b :: cint) = sint a - sint b"
  by (simp add: int_ok_def sint_word_diff signed_take_bit_int_eq_self)

lemma sint_mult_ok: "int_ok (sint a * sint b) \<Longrightarrow> sint (a * b :: cint) = sint a * sint b"
  by (simp add: int_ok_def sint_word_mult signed_take_bit_int_eq_self)

lemma sint_c_div_2: "sint (c_div a 2) = sint a sdiv 2"
proof -
  have "int_ok (sint a sdiv 2)"
    using sint_ok [of a] by (auto simp: int_ok_def signed_divide_int_def sgn_if abs_if)
  then show ?thesis
    by (simp add: c_div_def sint_of_int_ok)
qed

lemma sint_MAX_int: "sint (MAX_int a b) = max (sint a) (sint b)"
  by (simp add: MAX_int_def word_sless_alt max_def)

lemma sint_inj:
  fixes a b :: cint
  assumes "sint a = sint b"
  shows "a = b"
proof -
  have "(word_of_int (sint a) :: cint) = word_of_int (sint b)"
    using assms by simp
  then show ?thesis
    by simp
qed

section \<open>The loops of \<open>print_concentric_square\<close>\<close>

text \<open>
  Whatever \<open>n\<close> and \<open>m\<close> are, the two loops write the rendering of the cells of
  rows and columns 0 to \<open>m - 1\<close>.
\<close>

lemma square_cols_render:
  "square_cols n m i j =
     render_row (map (\<lambda>c. sint (cell_value n m i (word_of_int c))) [sint j..sint m - 1])"
proof (induction n m i j rule: square_cols.induct)
  case (1 n m i j)
  show ?case
  proof (cases "j <s m")
    case True
    then have lt: "sint j < sint m"
      by (simp add: word_sless_alt)
    have up: "[sint j..sint m - 1] = sint j # [sint (j + 1)..sint m - 1]"
      using lt sint_succ [OF True] by (simp add: upto_rec1)
    show ?thesis
      using True "1.IH" [OF True]
      by (subst square_cols.simps) (simp add: up render_row_def fmt_d_def)
  next
    case False
    then have "[sint j..sint m - 1] = []"
      by (simp add: word_sless_alt)
    with False show ?thesis
      by (subst square_cols.simps) (simp add: render_row_def)
  qed
qed

lemma square_rows_render:
  "square_rows n m i =
     render_grid (map (\<lambda>r. map (\<lambda>c. sint (cell_value n m (word_of_int r) (word_of_int c)))
                              [0..sint m - 1]) [sint i..sint m - 1])"
proof (induction n m i rule: square_rows.induct)
  case (1 n m i)
  show ?case
  proof (cases "i <s m")
    case True
    then have lt: "sint i < sint m"
      by (simp add: word_sless_alt)
    have up: "[sint i..sint m - 1] = sint i # [sint (i + 1)..sint m - 1]"
      using lt sint_succ [OF True] by (simp add: upto_rec1)
    show ?thesis
      using True "1.IH" [OF True]
      by (subst square_rows.simps) (simp add: up render_grid_def square_cols_render)
  next
    case False
    then have "[sint i..sint m - 1] = []"
      by (simp add: word_sless_alt)
    with False show ?thesis
      by (subst square_rows.simps) (simp add: render_grid_def)
  qed
qed

lemma print_concentric_square_render:
  "0 <s n \<Longrightarrow> print_concentric_square n = render_grid (cell_grid n)"
  by (simp add: print_concentric_square_def cell_grid_def Let_def square_rows_render
      word_sless_alt word_sle_eq)

section \<open>The cell values where nothing overflows\<close>

lemma sint_m:
  fixes n :: cint
  shows "sint (2 * n - 1) = signed_take_bit 31 (2 * sint n - 1)"
proof -
  have "2 * n - 1 = (word_of_int (2 * sint n - 1) :: cint)"
    by simp
  then show ?thesis
    by (simp only: sint_sbintrunc') simp
qed

lemma sint_m_pos:
  fixes n :: cint
  assumes "1 \<le> sint n" "sint n \<le> 1073741824"
  shows "sint (2 * n - 1) = 2 * sint n - 1"
  using assms by (simp add: sint_m signed_take_bit_int_eq_self)

lemma ring_value_split:
  fixes x a b :: int
  assumes "0 \<le> a" "a \<le> 2 * x - 2" "0 \<le> b" "b \<le> 2 * x - 2"
  shows "(if a + b < 2 * x - 1 then max (x - a) (x - b) else max (a - x) (b - x) + 2)
           = ring_value x a b"
proof (cases "a + b < 2 * x - 1")
  case True
  then have "min (min a b) (min (2 * x - 1 - 1 - a) (2 * x - 1 - 1 - b)) = min a b"
    by linarith
  moreover have "max (x - a) (x - b) = x - min a b"
    by linarith
  ultimately show ?thesis
    using True by (simp add: ring_value_def Let_def)
next
  case False
  then have "min (min a b) (min (2 * x - 1 - 1 - a) (2 * x - 1 - 1 - b)) = 2 * x - 2 - max a b"
    by linarith
  moreover have "max (a - x) (b - x) + 2 = x - (2 * x - 2 - max a b)"
    by linarith
  ultimately show ?thesis
    using False by (simp add: ring_value_def Let_def)
qed

lemma cell_value_ring:
  fixes n i j :: cint
  assumes "1 \<le> sint n" "sint n \<le> 536870912"
    and "0 \<le> sint i" "sint i \<le> 2 * sint n - 2"
    and "0 \<le> sint j" "sint j \<le> 2 * sint n - 2"
  shows "sint (cell_value n (2 * n - 1) i j) = ring_value (sint n) (sint i) (sint j)"
proof -
  have m: "sint (2 * n - 1) = 2 * sint n - 1"
    using assms by (simp add: sint_m_pos)
  have s: "sint (i + j) = sint i + sint j"
    using assms by (intro sint_add_ok) (simp add: int_ok_def)
  have a: "sint (n - i) = sint n - sint i" "sint (n - j) = sint n - sint j"
    "sint (i - n) = sint i - sint n" "sint (j - n) = sint j - sint n"
    using assms by (simp_all add: sint_sub_ok int_ok_def)
  have p: "sint (MAX_int (i - n) (j - n) + 2) = max (sint i - sint n) (sint j - sint n) + 2"
    using assms sint_add_ok [of "MAX_int (i - n) (j - n)" 2]
    by (simp add: sint_MAX_int a int_ok_def)
  have "sint (cell_value n (2 * n - 1) i j) =
      (if sint i + sint j < 2 * sint n - 1 then max (sint n - sint i) (sint n - sint j)
       else max (sint i - sint n) (sint j - sint n) + 2)"
    by (simp add: cell_value_def word_sless_alt m s p sint_MAX_int a)
  also have "\<dots> = ring_value (sint n) (sint i) (sint j)"
    using assms by (intro ring_value_split)
  finally show ?thesis .
qed

section \<open>A sum of two non-negative \<open>int\<close>s, wrapped\<close>

lemma wrap_mod:
  fixes s :: int
  assumes "0 \<le> s" "s < 4294967296"
  shows "(s + 2147483648) mod 4294967296 - 2147483648 =
    (if s < 2147483648 then s else s - 4294967296)"
proof (cases "s < 2147483648")
  case True
  with assms show ?thesis
    by (simp add: mod_pos_pos_trivial)
next
  case False
  have "(s + 2147483648) mod 4294967296 = (s + 2147483648 - 4294967296) mod 4294967296"
    by (rule minus_mod_self2 [symmetric])
  also have "\<dots> = s + 2147483648 - 4294967296"
    using False assms by (intro mod_pos_pos_trivial) simp_all
  finally show ?thesis
    using False by simp
qed

lemma sint_add_wrap:
  fixes i j :: cint
  assumes "0 \<le> sint i" "0 \<le> sint j"
  shows "sint (i + j) =
    (if sint i + sint j < 2147483648 then sint i + sint j else sint i + sint j - 4294967296)"
proof -
  have "sint i < 2147483648" "sint j < 2147483648"
    using sint_lt [of i] sint_lt [of j] by simp_all
  then have r: "0 \<le> sint i + sint j" "sint i + sint j < 4294967296"
    using assms by simp_all
  have "sint (i + j) = (sint i + sint j + 2147483648) mod 4294967296 - 2147483648"
    using int_word_sint [of "sint i + sint j", where 'a = 32] by simp
  then show ?thesis
    by (simp only: wrap_mod [OF r])
qed

text \<open>
  Up to \<open>n = 2\<^sup>3\<^sup>0\<close> only \<open>i + j\<close> can overflow; where it does, the wrapped sum is
  negative, the test \<open>i + j < m\<close> succeeds and the cell gets \<open>max(n-i, n-j)\<close>.
\<close>

lemma cell_value_wrap:
  fixes n i j :: cint
  assumes n: "1 \<le> sint n" "sint n \<le> 1073741824"
    and i: "0 \<le> sint i" "sint i \<le> 2 * sint n - 2"
    and j: "0 \<le> sint j" "sint j \<le> 2 * sint n - 2"
  shows "sint (cell_value n (2 * n - 1) i j) =
    (if sint i + sint j < 2147483648 then ring_value (sint n) (sint i) (sint j)
     else max (sint n - sint i) (sint n - sint j))"
proof -
  have m: "sint (2 * n - 1) = 2 * sint n - 1"
    using n by (rule sint_m_pos)
  have s: "sint (i + j) =
      (if sint i + sint j < 2147483648 then sint i + sint j else sint i + sint j - 4294967296)"
    using i(1) j(1) by (rule sint_add_wrap)
  have a: "sint (n - i) = sint n - sint i" "sint (n - j) = sint n - sint j"
    "sint (i - n) = sint i - sint n" "sint (j - n) = sint j - sint n"
    using n i j by (simp_all add: sint_sub_ok int_ok_def)
  have up: "sint (MAX_int (n - i) (n - j)) = max (sint n - sint i) (sint n - sint j)"
    by (simp add: sint_MAX_int a)
  have "sint (MAX_int (i - n) (j - n) + 2) = sint (MAX_int (i - n) (j - n)) + sint (2 :: cint)"
    using n i j by (intro sint_add_ok) (simp add: sint_MAX_int a int_ok_def)
  then have low: "sint (MAX_int (i - n) (j - n) + 2) = max (sint i - sint n) (sint j - sint n) + 2"
    by (simp add: sint_MAX_int a)
  show ?thesis
  proof (cases "sint i + sint j < 2147483648")
    case True
    then have "sint (cell_value n (2 * n - 1) i j) =
        (if sint i + sint j < 2 * sint n - 1 then max (sint n - sint i) (sint n - sint j)
         else max (sint i - sint n) (sint j - sint n) + 2)"
      by (simp add: cell_value_def word_sless_alt m s up low)
    also have "\<dots> = ring_value (sint n) (sint i) (sint j)"
      using i j by (intro ring_value_split)
    finally show ?thesis
      using True by simp
  next
    case False
    then have "sint (i + j) < sint (2 * n - 1)"
      using n i j by (simp add: s m)
    then have "sint (cell_value n (2 * n - 1) i j) = max (sint n - sint i) (sint n - sint j)"
      by (simp add: cell_value_def word_sless_alt up)
    with False show ?thesis
      by simp
  qed
qed

section \<open>The loop of \<open>print_triangle\<close>\<close>

lemma tri_Suc: "tri (Suc k) = tri k + Suc k"
  by (simp add: tri_def)

lemma tri_mono: "a \<le> b \<Longrightarrow> tri a \<le> tri b"
  by (induction b) (auto simp: tri_Suc le_Suc_eq)

lemma tri_bound: "(k::nat) \<le> 46340 \<Longrightarrow> k * (k + 1) \<le> 2147441940"
proof -
  assume "k \<le> 46340"
  then have "k * (k + 1) \<le> 46340 * (46340 + 1)"
    by (intro mult_le_mono) simp_all
  then show ?thesis by simp
qed

lemma sint_of_nat_ok: "k \<le> 2147483647 \<Longrightarrow> sint (of_nat k :: cint) = int k"
  using sint_of_int_ok [of "int k"] by (simp add: int_ok_def)

lemma sint_tri_word:
  assumes "k \<le> 46340"
  shows "sint (c_div (of_nat k * (of_nat k + 1)) 2) = int (tri k)"
proof -
  have "(of_nat k * (of_nat k + 1) :: cint) = of_nat (k * (k + 1))"
    by (simp add: algebra_simps)
  moreover have "sint (of_nat (k * (k + 1)) :: cint) = int (k * (k + 1))"
    using tri_bound [OF assms] by (intro sint_of_nat_ok) simp
  ultimately have "sint (c_div (of_nat k * (of_nat k + 1)) 2) = int (k * (k + 1)) sdiv 2"
    by (simp only: sint_c_div_2)
  also have "\<dots> = int (k * (k + 1)) div 2"
    by (simp add: signed_divide_int_def sgn_if)
  also have "\<dots> = int (tri k)"
    by (simp add: tri_def zdiv_int)
  finally show ?thesis .
qed

lemma tri_word:
  assumes "k \<le> 46340"
  shows "c_div (of_nat k * (of_nat k + 1)) 2 = (of_nat (tri k) :: cint)"
proof (rule sint_inj)
  have "tri k \<le> 2147483647"
    using tri_bound [OF assms] by (simp add: tri_def)
  then show "sint (c_div (of_nat k * (of_nat k + 1)) 2) = sint (of_nat (tri k) :: cint)"
    by (simp add: sint_tri_word [OF assms] sint_of_nat_ok)
qed

lemma tri_le_max: "k \<le> 46340 \<Longrightarrow> tri k \<le> 1073720970"
  using tri_bound [of k] by (simp add: tri_def)

lemma word_of_nat_le:
  assumes "a \<le> 2147483647" "b \<le> 2147483647"
  shows "(of_nat a :: cint) \<le>s of_nat b \<longleftrightarrow> a \<le> b"
  using assms by (simp add: word_sle_eq sint_of_nat_ok)

lemma word_of_nat_eq:
  assumes "a \<le> 2147483647" "b \<le> 2147483647"
  shows "(of_nat a :: cint) = of_nat b \<longleftrightarrow> a = b"
proof
  assume "(of_nat a :: cint) = of_nat b"
  then have "sint (of_nat a :: cint) = sint (of_nat b :: cint)"
    by simp
  with assms show "a = b"
    by (simp add: sint_of_nat_ok)
qed simp

lemma triangle_loop_step:
  assumes "q < n" "n \<le> 46340" "c \<le> q"
  shows "triangle_loop (of_nat (tri n)) (of_nat (Suc q)) (of_nat (tri q + c + 1)) out =
     (if c = q
      then triangle_loop (of_nat (tri n)) (of_nat (Suc (Suc q))) (of_nat (tri (Suc q) + 1))
             (out @ ''* '' @ ''\<newline>'')
      else triangle_loop (of_nat (tri n)) (of_nat (Suc q)) (of_nat (tri q + Suc c + 1))
             (out @ ''* ''))"
proof -
  have q: "Suc q \<le> 46340"
    using assms by simp
  have le: "tri q + c + 1 \<le> tri (Suc q)"
    using assms by (simp add: tri_Suc)
  have "tri (Suc q) \<le> tri n"
    using assms by (intro tri_mono) simp
  with le have le_n: "tri q + c + 1 \<le> tri n"
    by simp
  have n: "tri n \<le> 1073720970"
    using assms by (intro tri_le_max)
  have cond: "(of_nat (tri q + c + 1) :: cint) \<le>s of_nat (tri n)"
    using le_n n by (subst word_of_nat_le) simp_all
  have row: "c_div (of_nat (Suc q) * (of_nat (Suc q) + 1)) 2 = (of_nat (tri (Suc q)) :: cint)"
    using q by (rule tri_word)
  have eq: "(of_nat (tri q + c + 1) :: cint) = of_nat (tri (Suc q)) \<longleftrightarrow> c = q"
    using le_n n tri_le_max [OF q] by (subst word_of_nat_eq) (auto simp: tri_Suc)
  show ?thesis
    by (subst triangle_loop.simps) (simp only: cond row eq if_True, simp add: tri_Suc)
qed

lemma triangle_loop_row:
  assumes "q < n" "n \<le> 46340" "c \<le> q"
  shows "triangle_loop (of_nat (tri n)) (of_nat (Suc q)) (of_nat (tri q + c + 1)) out =
     triangle_loop (of_nat (tri n)) (of_nat (Suc (Suc q))) (of_nat (tri (Suc q) + 1))
       (out @ concat (replicate (Suc q - c) ''* '') @ ''\<newline>'')"
  using assms(3)
proof (induction k \<equiv> "q - c" arbitrary: c out)
  case 0
  then have "c = q"
    by simp
  then show ?case
    using triangle_loop_step [OF assms(1,2), of q out] by simp
next
  case (Suc k)
  then have c: "c < q" "k = q - Suc c" "Suc c \<le> q"
    by simp_all
  have "triangle_loop (of_nat (tri n)) (of_nat (Suc q)) (of_nat (tri q + c + 1)) out =
      triangle_loop (of_nat (tri n)) (of_nat (Suc q)) (of_nat (tri q + Suc c + 1)) (out @ ''* '')"
    using triangle_loop_step [OF assms(1,2), of c out] c by simp
  also have "\<dots> = triangle_loop (of_nat (tri n)) (of_nat (Suc (Suc q))) (of_nat (tri (Suc q) + 1))
       ((out @ ''* '') @ concat (replicate (Suc q - Suc c) ''* '') @ ''\<newline>'')"
    using Suc.hyps(1) [OF c(2) c(3)] .
  also have "(out @ ''* '') @ concat (replicate (Suc q - Suc c) ''* '') @ ''\<newline>'' =
      out @ concat (replicate (Suc q - c) ''* '') @ ''\<newline>''"
    using c by (simp add: Suc_diff_le)
  finally show ?case .
qed

lemma triangle_loop_done:
  assumes "n \<le> 46340"
  shows "triangle_loop (of_nat (tri n)) row (of_nat (tri n + 1)) out = Some out"
proof -
  have "tri n \<le> 1073720970"
    using assms by (rule tri_le_max)
  then have "\<not> (of_nat (tri n + 1) :: cint) \<le>s of_nat (tri n)"
    by (subst word_of_nat_le) simp_all
  then show ?thesis
    by (subst triangle_loop.simps) simp
qed

lemma triangle_loop_rows:
  assumes "n \<le> 46340" "q \<le> n"
  shows "triangle_loop (of_nat (tri n)) (of_nat (Suc q)) (of_nat (tri q + 1)) out =
     Some (out @ concat (map triangle_row [Suc q..<Suc n]))"
  using assms(2)
proof (induction k \<equiv> "n - q" arbitrary: q out)
  case 0
  then have "q = n"
    by simp
  then show ?case
    using triangle_loop_done [OF assms(1)] by simp
next
  case (Suc k)
  then have q: "q < n" "k = n - Suc q" "Suc q \<le> n"
    by simp_all
  have "triangle_loop (of_nat (tri n)) (of_nat (Suc q)) (of_nat (tri q + 0 + 1)) out =
     triangle_loop (of_nat (tri n)) (of_nat (Suc (Suc q))) (of_nat (tri (Suc q) + 1))
       (out @ concat (replicate (Suc q - 0) ''* '') @ ''\<newline>'')"
    using q(1) assms(1) by (rule triangle_loop_row) simp
  also have "\<dots> = Some ((out @ concat (replicate (Suc q - 0) ''* '') @ ''\<newline>'')
       @ concat (map triangle_row [Suc (Suc q)..<Suc n]))"
    using Suc.hyps(1) [OF q(2) q(3)] .
  also have "(out @ concat (replicate (Suc q - 0) ''* '') @ ''\<newline>'')
       @ concat (map triangle_row [Suc (Suc q)..<Suc n]) =
     out @ concat (map triangle_row [Suc q..<Suc n])"
  proof -
    have "[Suc q..<Suc n] = Suc q # [Suc (Suc q)..<Suc n]"
      using q by (simp add: upt_conv_Cons)
    then show ?thesis
      by (simp add: triangle_row_def)
  qed
  finally show ?case
    by simp
qed


lemma triangle_loop_returns:
  assumes "sint total_n < 2147483647"
  shows "\<exists>res. triangle_loop total_n row i out = Some res"
proof (induction k \<equiv> "nat (sint total_n + 1 - sint i)" arbitrary: row i out rule: less_induct)
  case less
  show ?case
  proof (cases "i \<le>s total_n")
    case True
    then have le: "sint i \<le> sint total_n"
      by (simp add: word_sle_eq)
    have "sint (i + 1) = sint i + sint (1 :: cint)"
      using le assms sint_ge [of i] by (intro sint_add_ok) (simp add: int_ok_def)
    then have dec: "nat (sint total_n + 1 - sint (i + 1)) < nat (sint total_n + 1 - sint i)"
      using le by simp
    have a: "\<exists>res. triangle_loop total_n (row + 1) (i + 1) (out @ ''* '' @ ''\<newline>'') = Some res"
      and b: "\<exists>res. triangle_loop total_n row (i + 1) (out @ ''* '') = Some res"
      using less [OF dec] by blast+
    show ?thesis
    proof (cases "i = c_div (row * (row + 1)) 2")
      case eq: True
      have "triangle_loop total_n row i out =
          triangle_loop total_n (row + 1) (i + 1) (out @ ''* '' @ ''\<newline>'')"
        using True eq by (subst triangle_loop.simps) simp
      with a show ?thesis
        by simp
    next
      case neq: False
      have "triangle_loop total_n row i out = triangle_loop total_n row (i + 1) (out @ ''* '')"
        using True neq by (subst triangle_loop.simps) simp
      with b show ?thesis
        by simp
    qed
  next
    case False
    then show ?thesis
      by (subst triangle_loop.simps) simp
  qed
qed

lemma sdiv_2_below_max: "int_ok x \<Longrightarrow> x sdiv 2 < 2147483647"
  by (auto simp: int_ok_def signed_divide_int_def sgn_if abs_if)

lemma print_triangle_returns: "\<exists>res. print_triangle n = Some res"
proof -
  have "sint (c_div (n * (n + 1)) 2) < 2147483647"
    using sdiv_2_below_max [OF sint_ok [of "n * (n + 1)"]]
    by (simp add: sint_c_div_2)
  then show ?thesis
    by (simp add: print_triangle_def Let_def triangle_loop_returns)
qed

lemma triangle_text_nonempty: "triangle_text (Suc k) \<noteq> []"
  by (simp add: triangle_text_def triangle_row_def)

section \<open>The grid of \<open>print_concentric_square\<close>\<close>

lemma cell_grid_length: "length (cell_grid n) = nat (sint (2 * n - 1))"
  by (simp add: cell_grid_def Let_def)

lemma cell_grid_row_length:
  "row \<in> set (cell_grid n) \<Longrightarrow> length row = nat (sint (2 * n - 1))"
  by (auto simp: cell_grid_def Let_def)

lemma cell_grid_nth:
  assumes "r < nat (sint (2 * n - 1))" and "c < nat (sint (2 * n - 1))"
  shows "cell_grid n ! r ! c = sint (cell_value n (2 * n - 1) (of_nat r) (of_nat c))"
  using assms by (simp add: cell_grid_def Let_def nth_upto)

lemma MAX_int_commute: "MAX_int a b = MAX_int b a"
  by (rule sint_inj) (simp add: sint_MAX_int max.commute)

lemma cell_value_transpose: "cell_value n m j i = cell_value n m i j"
  by (simp add: cell_value_def add.commute MAX_int_commute)

lemma ring_value_rotate:
  "ring_value x (2 * x - 1 - 1 - a) (2 * x - 1 - 1 - b) = ring_value x a b"
  by (simp add: ring_value_def Let_def min.commute min.left_commute min.assoc)

lemma cell_grid_ring:
  fixes n :: cint
  assumes "0 <s n" and "n \<le>s 536870912"
    and "r < nat (2 * sint n - 1)" and "c < nat (2 * sint n - 1)"
  shows "cell_grid n ! r ! c = ring_value (sint n) (int r) (int c)"
proof -
  have n: "1 \<le> sint n" "sint n \<le> 536870912"
    using assms by (simp_all add: word_sless_alt word_sle_eq)
  then have m: "sint (2 * n - 1) = 2 * sint n - 1"
    by (intro sint_m_pos) simp_all
  have r: "sint (of_nat r :: cint) = int r" and c: "sint (of_nat c :: cint) = int c"
    using assms n by (simp_all add: sint_of_nat_ok)
  have "cell_grid n ! r ! c = sint (cell_value n (2 * n - 1) (of_nat r) (of_nat c))"
    using assms by (intro cell_grid_nth) (simp_all add: m)
  also have "\<dots> = ring_value (sint n) (sint (of_nat r :: cint)) (sint (of_nat c :: cint))"
    using assms n by (intro cell_value_ring) (simp_all add: r c)
  finally show ?thesis
    by (simp add: r c)
qed

lemma cell_grid_wrap:
  fixes n :: cint
  assumes "0 <s n" and "n \<le>s 1073741824"
    and "r < nat (2 * sint n - 1)" and "c < nat (2 * sint n - 1)"
  shows "cell_grid n ! r ! c =
    (if int r + int c < 2147483648 then ring_value (sint n) (int r) (int c)
     else max (sint n - int r) (sint n - int c))"
proof -
  have n: "1 \<le> sint n" "sint n \<le> 1073741824"
    using assms by (simp_all add: word_sless_alt word_sle_eq)
  then have m: "sint (2 * n - 1) = 2 * sint n - 1"
    by (rule sint_m_pos)
  have r: "sint (of_nat r :: cint) = int r" and c: "sint (of_nat c :: cint) = int c"
    using assms n by (simp_all add: sint_of_nat_ok)
  have "cell_grid n ! r ! c = sint (cell_value n (2 * n - 1) (of_nat r) (of_nat c))"
    using assms by (intro cell_grid_nth) (simp_all add: m)
  also have "\<dots> =
      (if sint (of_nat r :: cint) + sint (of_nat c :: cint) < 2147483648
       then ring_value (sint n) (sint (of_nat r :: cint)) (sint (of_nat c :: cint))
       else max (sint n - sint (of_nat r :: cint)) (sint n - sint (of_nat c :: cint)))"
    using assms n by (intro cell_value_wrap) (simp_all add: r c)
  finally show ?thesis
    by (simp only: r c)
qed

section \<open>The anti-diagonal\<close>

lemma sint_of_int_wrap:
  assumes "0 \<le> k" and "k < 4294967296"
  shows "sint (word_of_int k :: cint) = (if k < 2147483648 then k else k - 4294967296)"
proof -
  have "sint (word_of_int k :: cint) = (k + 2147483648) mod 4294967296 - 2147483648"
    using int_word_sint [of k, where 'a = 32] by simp
  then show ?thesis
    by (simp only: wrap_mod [OF assms])
qed

lemma grid_nonempty_bound:
  fixes n i :: cint
  assumes "0 <s n" and "0 \<le>s i" and "i <s 2 * n - 1"
  shows "sint n \<le> 1073741824"
proof (rule ccontr)
  assume "\<not> sint n \<le> 1073741824"
  then have big: "1073741824 < sint n"
    by simp
  have lt: "sint n < 2147483648"
    using sint_lt [of n] by simp
  have "2 * n - 1 = (word_of_int (2 * sint n - 1) :: cint)"
    by simp
  then have "sint (2 * n - 1) = 2 * sint n - 1 - 4294967296"
    using big lt sint_of_int_wrap [of "2 * sint n - 1"] by simp
  then have "sint (2 * n - 1) < 0"
    using lt by simp
  with assms show False
    by (simp add: word_sless_alt word_sle_eq)
qed

lemma anti_diagonal_sum:
  fixes n i j :: cint
  assumes n: "1 \<le> sint n" "sint n \<le> 1073741824"
    and i: "0 \<le> sint i" "sint i \<le> 2 * sint n - 2"
    and j: "0 \<le> sint j" "sint j \<le> 2 * sint n - 2"
    and d: "i + j = 2 * n - 1 - 1"
  shows "sint i + sint j = 2 * sint n - 2"
proof -
  have m: "sint (2 * n - 1) = 2 * sint n - 1"
    using n by (rule sint_m_pos)
  have "sint (2 * n - 1 - 1) = sint (2 * n - 1) - sint (1 :: cint)"
    using n by (intro sint_sub_ok) (simp add: m int_ok_def)
  then have "sint (i + j) = 2 * sint n - 2"
    using d m by simp
  then show ?thesis
    using n i j by (simp add: sint_add_wrap [OF i(1) j(1)] split: if_splits)
qed

lemma anti_diagonal_formulas:
  fixes n i j :: cint
  assumes n: "1 \<le> sint n" "sint n \<le> 1073741824"
    and i: "0 \<le> sint i" "sint i \<le> 2 * sint n - 2"
    and j: "0 \<le> sint j" "sint j \<le> 2 * sint n - 2"
    and d: "i + j = 2 * n - 1 - 1"
  shows "MAX_int (n - i) (n - j) = MAX_int (i - n) (j - n) + 2"
proof (rule sint_inj)
  have s: "sint i + sint j = 2 * sint n - 2"
    using assms by (rule anti_diagonal_sum)
  have a: "sint (n - i) = sint n - sint i" "sint (n - j) = sint n - sint j"
    "sint (i - n) = sint i - sint n" "sint (j - n) = sint j - sint n"
    using n i j by (simp_all add: sint_sub_ok int_ok_def)
  have "sint (MAX_int (i - n) (j - n) + 2) = sint (MAX_int (i - n) (j - n)) + sint (2 :: cint)"
    using n i j s by (intro sint_add_ok) (simp add: sint_MAX_int a int_ok_def)
  then have "sint (MAX_int (i - n) (j - n) + 2) = max (sint i - sint n) (sint j - sint n) + 2"
    by (simp add: sint_MAX_int a)
  moreover have "sint (MAX_int (n - i) (n - j)) = max (sint n - sint i) (sint n - sint j)"
    by (simp add: sint_MAX_int a)
  moreover have "max (sint n - sint i) (sint n - sint j) = max (sint i - sint n) (sint j - sint n) + 2"
    using s by linarith
  ultimately show "sint (MAX_int (n - i) (n - j)) = sint (MAX_int (i - n) (j - n) + 2)"
    by simp
qed

section \<open>Counting rows and cells in the output\<close>

lemma dec_digits_chars: "set (dec_digits k) \<subseteq> set ''0123456789''"
proof (induction k rule: dec_digits.induct)
  case (1 k)
  have d: "''0123456789'' ! j \<in> set ''0123456789''" if "j < 10" for j
    using that by (intro nth_mem) simp
  show ?case
  proof (cases "k < 10")
    case True
    then show ?thesis
      using d [of k] by (subst dec_digits.simps) simp
  next
    case False
    then show ?thesis
      using "1.IH" d [of "k mod 10"] by (subst dec_digits.simps) simp
  qed
qed

lemma decimal_no_separator:
  "CHR ''\<newline>'' \<notin> set (decimal v)" "CHR '' '' \<notin> set (decimal v)"
  using dec_digits_chars [of "nat v"] dec_digits_chars [of "nat (- v)"]
  by (auto simp: decimal_def)

lemma count_render_row:
  "count_list (render_row vs) CHR ''\<newline>'' = 0"
  "count_list (render_row vs) CHR '' '' = length vs"
  by (induction vs) (simp_all add: render_row_def decimal_no_separator)

lemma count_render_grid:
  "count_list (render_grid g) CHR ''\<newline>'' = length g"
  "count_list (render_grid g) CHR '' '' = sum_list (map length g)"
  by (induction g) (simp_all add: render_grid_def count_render_row)

lemma cell_grid_cells: "sum_list (map length (cell_grid n)) = nat (sint (2 * n - 1)) * nat (sint (2 * n - 1))"
  by (simp add: cell_grid_def Let_def comp_def sum_list_triv)

section \<open>Properties of the concentric pattern\<close>

lemma ring_value_bounds:
  assumes "1 \<le> x" "0 \<le> a" "a \<le> 2 * x - 2" "0 \<le> b" "b \<le> 2 * x - 2"
  shows "1 \<le> ring_value x a b" "ring_value x a b \<le> x"
proof -
  have "min (min a b) (min (2 * x - 1 - 1 - a) (2 * x - 1 - 1 - b)) \<le> x - 1"
    using assms by linarith
  moreover have "0 \<le> min (min a b) (min (2 * x - 1 - 1 - a) (2 * x - 1 - 1 - b))"
    using assms by linarith
  ultimately show "1 \<le> ring_value x a b" "ring_value x a b \<le> x"
    by (simp_all add: ring_value_def Let_def)
qed

lemma ring_value_border:
  assumes "0 \<le> a" "a \<le> 2 * x - 2" "0 \<le> b" "b \<le> 2 * x - 2"
    and "ring_value x a b = x"
  shows "a = 0 \<or> b = 0 \<or> a = 2 * x - 2 \<or> b = 2 * x - 2"
proof -
  have "min (min a b) (min (2 * x - 1 - 1 - a) (2 * x - 1 - 1 - b)) = 0"
    using assms(5) by (simp add: ring_value_def Let_def)
  then show ?thesis
    by linarith
qed

lemma ring_value_centre: "ring_value x (x - 1) (x - 1) = 1"
  by (simp add: ring_value_def Let_def)

lemma ring_value_corner: "1 \<le> x \<Longrightarrow> ring_value x 0 0 = x"
  by (simp add: ring_value_def Let_def)

section \<open>The two programs\<close>

lemma square_example_3:
  "print_concentric_square 3 =
     ''3 3 3 3 3 \<newline>3 2 2 2 3 \<newline>3 2 1 2 3 \<newline>3 2 2 2 3 \<newline>3 3 3 3 3 \<newline>''"
  by code_simp

lemma square_example_5:
  "print_concentric_square 5 =
     ''5 5 5 5 5 5 5 5 5 \<newline>5 4 4 4 4 4 4 4 5 \<newline>5 4 3 3 3 3 3 4 5 \<newline>''
   @ ''5 4 3 2 2 2 3 4 5 \<newline>5 4 3 2 1 2 3 4 5 \<newline>5 4 3 2 2 2 3 4 5 \<newline>''
   @ ''5 4 3 3 3 3 3 4 5 \<newline>5 4 4 4 4 4 4 4 5 \<newline>5 5 5 5 5 5 5 5 5 \<newline>''"
  by code_simp

lemma triangle_example_3:
  "print_triangle 3 = Some ''* \<newline>* * \<newline>* * * \<newline>''"
  by code_simp

lemma triangle_example_6:
  "print_triangle 6 =
     Some ''* \<newline>* * \<newline>* * * \<newline>* * * * \<newline>* * * * * \<newline>* * * * * * \<newline>''"
  by code_simp

lemma main_square_parsed:
  "main_square 1 v =
     (square_banner @ ''\<newline>''
      @ (if v \<le>s 7 then visualize_regions v else [])
      @ ''Concentric square pattern:\<newline>''
      @ print_concentric_square v
      @ ''\<newline>'' @ square_examples, 0)"
  by (simp add: main_square_def square_examples_def square_example_3 square_example_5)

lemma main_triangle_parsed:
  "print_triangle v = Some o1 \<Longrightarrow>
   main_triangle 1 v = Some (triangle_banner @ ''\<newline>'' @ o1 @ ''\<newline>'' @ triangle_examples, 0)"
  by (simp add: main_triangle_def triangle_examples_def triangle_example_3 triangle_example_6)

section \<open>Claims\<close>

text \<open>
  C1 (as amended). For every \<open>n\<close> from 1 to \<open>2\<^sup>2\<^sup>9 = 536870912\<close> and every cell
  \<open>(i, j)\<close> with \<open>0 \<le> i, j < m\<close>, \<open>m = 2n - 1\<close>, the value that
  \<open>print_concentric_square\<close> prints (\<open>max(n-i, n-j)\<close> when \<open>i + j < m\<close>, and
  \<open>max(i-n, j-n) + 2\<close> otherwise) is \<open>n - min(i, j, m-1-i, m-1-j)\<close>. Up to this
  \<open>n\<close> no sum \<open>i + j\<close> leaves the range of \<open>int\<close>.
\<close>

theorem cell_value_is_ring_value:
  fixes n i j :: cint
  assumes "0 <s n" and "n \<le>s 536870912"
    and "0 \<le>s i" and "i <s 2 * n - 1" and "0 \<le>s j" and "j <s 2 * n - 1"
  shows "sint (cell_value n (2 * n - 1) i j) = ring_value (sint n) (sint i) (sint j)"
proof -
  have n: "1 \<le> sint n" "sint n \<le> 536870912"
    using assms by (simp_all add: word_sless_alt word_sle_eq)
  then have m: "sint (2 * n - 1) = 2 * sint n - 1"
    by (intro sint_m_pos) simp_all
  show ?thesis
    using assms n by (intro cell_value_ring) (simp_all add: word_sless_alt word_sle_eq m)
qed

theorem cell_value_is_ring_value_witness:
  "0 <s (4 :: cint) \<and> (4 :: cint) \<le>s 536870912
   \<and> 0 \<le>s (5 :: cint) \<and> (5 :: cint) <s 2 * 4 - 1 \<and> 0 \<le>s (3 :: cint) \<and> (3 :: cint) <s 2 * 4 - 1
   \<and> sint (cell_value 4 (2 * 4 - 1) 5 3) = 3 \<and> ring_value 4 5 3 = 3"
  using cell_value_is_ring_value [of 4 5 3]
  by (simp add: word_sless_alt word_sle_eq ring_value_def)

text \<open>
  C1 as stated, for every \<open>n \<ge> 1\<close>, fails at \<open>n = 2\<^sup>2\<^sup>9 + 1\<close> in the last cell
  \<open>i = j = 2\<^sup>3\<^sup>0\<close>: \<open>i + j\<close> wraps to \<open>INT_MIN\<close>, the test \<open>i + j < m\<close> succeeds
  and the cell gets \<open>max(n-i, n-j) = -536870911\<close> where the pattern has \<open>n\<close>.
\<close>

theorem cell_value_overflow:
  "0 <s (536870913 :: cint)
   \<and> 0 \<le>s (1073741824 :: cint) \<and> (1073741824 :: cint) <s 2 * 536870913 - 1
   \<and> sint (cell_value 536870913 (2 * 536870913 - 1) 1073741824 1073741824) = - 536870911
   \<and> ring_value (sint (536870913 :: cint)) (sint (1073741824 :: cint)) (sint (1073741824 :: cint))
       = 536870913"
  by (simp add: word_sless_alt word_sle_eq cell_value_def MAX_int_def ring_value_def)

text \<open>
  C2 (as amended). For every \<open>n\<close> from 1 to \<open>2\<^sup>3\<^sup>0 = 1073741824\<close> (the sizes for which
  \<open>m = 2n - 1\<close> is a positive \<open>int\<close>), \<open>print_concentric_square n\<close> writes exactly
  \<open>2n - 1\<close> rows of exactly \<open>2n - 1\<close> integers, each integer followed by a space and
  each row by a line break; no value exceeds \<open>n\<close>, the value \<open>n\<close> occurs (in the
  corner) and only in the outermost rows and columns, and the centre cell is 1.
\<close>

theorem print_concentric_square_grid:
  fixes n :: cint
  assumes "0 <s n" and "n \<le>s 1073741824"
  shows "print_concentric_square n = render_grid (cell_grid n)
    \<and> length (cell_grid n) = nat (2 * sint n - 1)
    \<and> (\<forall>row \<in> set (cell_grid n). length row = nat (2 * sint n - 1))
    \<and> count_list (print_concentric_square n) CHR ''\<newline>'' = nat (2 * sint n - 1)
    \<and> count_list (print_concentric_square n) CHR '' '' = nat (2 * sint n - 1) * nat (2 * sint n - 1)
    \<and> (\<forall>r < nat (2 * sint n - 1). \<forall>c < nat (2 * sint n - 1). cell_grid n ! r ! c \<le> sint n)
    \<and> cell_grid n ! 0 ! 0 = sint n
    \<and> (\<forall>r < nat (2 * sint n - 1). \<forall>c < nat (2 * sint n - 1).
          cell_grid n ! r ! c = sint n \<longrightarrow>
          r = 0 \<or> c = 0 \<or> r = nat (2 * sint n - 1) - 1 \<or> c = nat (2 * sint n - 1) - 1)
    \<and> cell_grid n ! (nat (sint n) - 1) ! (nat (sint n) - 1) = 1"
proof -
  have n: "1 \<le> sint n" "sint n \<le> 1073741824"
    using assms by (simp_all add: word_sless_alt word_sle_eq)
  then have m: "sint (2 * n - 1) = 2 * sint n - 1"
    by (rule sint_m_pos)
  have out: "print_concentric_square n = render_grid (cell_grid n)"
    using assms(1) by (rule print_concentric_square_render)
  have len: "length (cell_grid n) = nat (2 * sint n - 1)"
    by (simp add: cell_grid_length m)
  have rows: "\<forall>row \<in> set (cell_grid n). length row = nat (2 * sint n - 1)"
    by (simp add: cell_grid_row_length m)
  have nl: "count_list (print_concentric_square n) CHR ''\<newline>'' = nat (2 * sint n - 1)"
    by (simp add: out count_render_grid len)
  have sp: "count_list (print_concentric_square n) CHR '' ''
      = nat (2 * sint n - 1) * nat (2 * sint n - 1)"
    by (simp add: out count_render_grid cell_grid_cells m)
  have cell: "cell_grid n ! r ! c =
      (if int r + int c < 2147483648 then ring_value (sint n) (int r) (int c)
       else max (sint n - int r) (sint n - int c))"
    if "r < nat (2 * sint n - 1)" "c < nat (2 * sint n - 1)" for r c
    using assms that by (rule cell_grid_wrap)
  have bounds: "cell_grid n ! r ! c \<le> sint n"
    if "r < nat (2 * sint n - 1)" "c < nat (2 * sint n - 1)" for r c
  proof (cases "int r + int c < 2147483648")
    case True
    then show ?thesis
      using that n ring_value_bounds(2) [of "sint n" "int r" "int c"] by (simp add: cell)
  next
    case False
    then show ?thesis
      using that by (simp add: cell)
  qed
  have corner: "cell_grid n ! 0 ! 0 = sint n"
    using n cell [of 0 0] by (simp add: ring_value_corner)
  have border: "r = 0 \<or> c = 0 \<or> r = nat (2 * sint n - 1) - 1 \<or> c = nat (2 * sint n - 1) - 1"
    if "r < nat (2 * sint n - 1)" "c < nat (2 * sint n - 1)" "cell_grid n ! r ! c = sint n" for r c
  proof (cases "int r + int c < 2147483648")
    case True
    then have "ring_value (sint n) (int r) (int c) = sint n"
      using that by (simp add: cell)
    then have "int r = 0 \<or> int c = 0 \<or> int r = 2 * sint n - 2 \<or> int c = 2 * sint n - 2"
      using that(1,2) by (intro ring_value_border) simp_all
    then show ?thesis
      using n by linarith
  next
    case False
    then have "max (sint n - int r) (sint n - int c) = sint n"
      using that by (simp add: cell)
    then show ?thesis
      by linarith
  qed
  have "cell_grid n ! (nat (sint n) - 1) ! (nat (sint n) - 1)
      = ring_value (sint n) (int (nat (sint n) - 1)) (int (nat (sint n) - 1))"
    using n by (subst cell) simp_all
  also have "int (nat (sint n) - 1) = sint n - 1"
    using n by simp
  finally have centre: "cell_grid n ! (nat (sint n) - 1) ! (nat (sint n) - 1) = 1"
    by (simp add: ring_value_centre)
  show ?thesis
    using out len rows nl sp bounds corner border centre by blast
qed

text \<open>
  The instances \<open>n = 3\<close>, a grid of 5 rows and 25 cells with 3 in the corner and 1 in
  the centre, and \<open>n = 1\<close>, a single cell with value 1.
\<close>

theorem print_concentric_square_grid_witness:
  "0 <s (3 :: cint) \<and> (3 :: cint) \<le>s 1073741824
   \<and> print_concentric_square 3 = render_grid (cell_grid 3)
   \<and> length (cell_grid 3) = 5
   \<and> count_list (print_concentric_square 3) CHR ''\<newline>'' = 5
   \<and> count_list (print_concentric_square 3) CHR '' '' = 25
   \<and> cell_grid 3 ! 0 ! 0 = 3 \<and> cell_grid 3 ! 2 ! 2 = 1
   \<and> cell_grid 3 ! 4 ! 2 \<le> 3
   \<and> 0 <s (1 :: cint) \<and> (1 :: cint) \<le>s 1073741824
   \<and> print_concentric_square 1 = ''1 \<newline>''
   \<and> length (cell_grid 1) = 1 \<and> cell_grid 1 ! 0 ! 0 = 1"
proof -
  have "print_concentric_square 1 = ''1 \<newline>''"
    by code_simp
  then show ?thesis
    using print_concentric_square_grid [of 3] print_concentric_square_grid [of 1]
    by (auto simp: word_sless_alt word_sle_eq)
qed

text \<open>
  C2 as stated, for every \<open>n \<ge> 1\<close>, fails at \<open>n = 2\<^sup>3\<^sup>0 + 1\<close>: \<open>2 * n - 1\<close> wraps to
  a negative \<open>m\<close>, the outer loop never runs and no row is written, where the claim
  has 2147483649 rows.
\<close>

theorem print_concentric_square_overflow:
  "0 <s (1073741825 :: cint) \<and> print_concentric_square 1073741825 = []
   \<and> length (cell_grid 1073741825) = 0
   \<and> nat (2 * sint (1073741825 :: cint) - 1) = 2147483649"
  by (simp add: word_sless_alt word_sle_eq print_concentric_square_def square_rows.simps
      cell_grid_length)

text \<open>
  C3 (as amended). For every \<open>n\<close> from 1 to 46340, \<open>print_triangle n\<close> returns and
  has written exactly \<open>n\<close> rows; row \<open>k\<close> (counted from 1) is exactly \<open>k\<close> glyphs
  \<^verbatim>\<open>"* "\<close>, and a line break follows the last glyph of every row, the final row
  included. 46340 is the largest \<open>n\<close> for which \<open>n * (n + 1)\<close> fits an \<open>int\<close>.
\<close>

theorem print_triangle_rows:
  fixes n :: cint
  assumes "0 <s n" "n \<le>s 46340"
  shows "print_triangle n = Some (triangle_text (nat (sint n)))"
proof -
  define k where "k = nat (sint n)"
  have k: "0 < k" "k \<le> 46340" and n: "n = of_nat k"
    using assms by (simp_all add: k_def word_sless_alt word_sle_eq)
  have "c_div (n * (n + 1)) 2 = of_nat (tri k)"
    unfolding n using k(2) by (rule tri_word)
  moreover have "\<not> n \<le>s 0"
    using assms by (simp add: word_sless_alt word_sle_eq)
  ultimately have "print_triangle n = triangle_loop (of_nat (tri k)) (of_nat (Suc 0)) (of_nat (tri 0 + 1)) []"
    by (simp add: print_triangle_def tri_def)
  also have "\<dots> = Some ([] @ concat (map triangle_row [Suc 0..<Suc k]))"
    using k by (intro triangle_loop_rows) simp_all
  finally show ?thesis
    by (simp add: triangle_text_def k_def)
qed

theorem print_triangle_rows_witness:
  "0 <s (3 :: cint) \<and> (3 :: cint) \<le>s 46340
   \<and> print_triangle 3 = Some ''* \<newline>* * \<newline>* * * \<newline>''"
proof -
  have "triangle_text 3 = ''* \<newline>* * \<newline>* * * \<newline>''"
    by (simp add: triangle_text_def triangle_row_def upt_rec numeral_eq_Suc)
  then show ?thesis
    using print_triangle_rows [of 3] by (simp add: word_sless_alt word_sle_eq)
qed

text \<open>
  C3 as stated, for every \<open>n \<ge> 1\<close>, fails at \<open>n = 46341\<close>: \<open>n * (n + 1)\<close> is
  2147534622 and wraps to a negative \<open>int\<close>, so \<open>total\<close> is negative, the loop body
  never runs and nothing is written.
\<close>

theorem print_triangle_overflow:
  "0 <s (46341 :: cint) \<and> print_triangle 46341 = Some []
   \<and> print_triangle 46341 \<noteq> Some (triangle_text (nat (sint (46341 :: cint))))"
proof -
  have "print_triangle 46341 = Some []"
    by (simp add: print_triangle_def c_div_def triangle_loop.simps word_sle_eq)
  moreover have "nat (sint (46341 :: cint)) = Suc 46340"
    by simp
  moreover have "triangle_text (Suc 46340) \<noteq> []"
    by (rule triangle_text_nonempty)
  ultimately show ?thesis
    by (simp add: word_sless_alt)
qed

text \<open>
  C4 (as amended). For every \<open>n \<ge> 1\<close> the grid of values that
  \<open>print_concentric_square n\<close> writes is symmetric under transpose: the value at
  \<open>(r, c)\<close> is the value at \<open>(c, r)\<close>. For every \<open>n\<close> from 1 to \<open>2\<^sup>2\<^sup>9\<close> it is also
  symmetric under the rotation by 180 degrees: the value at \<open>(r, c)\<close> is the value at
  \<open>(m-1-r, m-1-c)\<close>, \<open>m = 2n - 1\<close>.
\<close>

theorem cell_grid_symmetric:
  fixes n :: cint
  assumes "0 <s n" and "r < length (cell_grid n)" and "c < length (cell_grid n)"
  shows "print_concentric_square n = render_grid (cell_grid n)
    \<and> cell_grid n ! c ! r = cell_grid n ! r ! c
    \<and> (n \<le>s 536870912 \<longrightarrow>
         cell_grid n ! (length (cell_grid n) - 1 - r) ! (length (cell_grid n) - 1 - c)
           = cell_grid n ! r ! c)"
proof -
  have rc: "r < nat (sint (2 * n - 1))" "c < nat (sint (2 * n - 1))"
    using assms by (simp_all add: cell_grid_length)
  have "cell_grid n ! c ! r = cell_grid n ! r ! c"
    by (simp add: cell_grid_nth rc cell_value_transpose)
  moreover have "cell_grid n ! (length (cell_grid n) - 1 - r) ! (length (cell_grid n) - 1 - c)
      = cell_grid n ! r ! c" if le: "n \<le>s 536870912"
  proof -
    have n: "1 \<le> sint n" "sint n \<le> 536870912"
      using assms le by (simp_all add: word_sless_alt word_sle_eq)
    then have m: "sint (2 * n - 1) = 2 * sint n - 1"
      by (intro sint_m_pos) simp_all
    have len: "length (cell_grid n) = nat (2 * sint n - 1)"
      by (simp add: cell_grid_length m)
    have rc': "r < nat (2 * sint n - 1)" "c < nat (2 * sint n - 1)"
      using rc by (simp_all add: m)
    have "cell_grid n ! (nat (2 * sint n - 1) - 1 - r) ! (nat (2 * sint n - 1) - 1 - c)
        = ring_value (sint n) (int (nat (2 * sint n - 1) - 1 - r)) (int (nat (2 * sint n - 1) - 1 - c))"
      using assms(1) le rc' by (intro cell_grid_ring) simp_all
    also have "int (nat (2 * sint n - 1) - 1 - r) = 2 * sint n - 1 - 1 - int r"
      using rc' by simp
    also have "int (nat (2 * sint n - 1) - 1 - c) = 2 * sint n - 1 - 1 - int c"
      using rc' by simp
    also have "ring_value (sint n) (2 * sint n - 1 - 1 - int r) (2 * sint n - 1 - 1 - int c)
        = ring_value (sint n) (int r) (int c)"
      by (rule ring_value_rotate)
    also have "\<dots> = cell_grid n ! r ! c"
      using assms(1) le rc' by (rule cell_grid_ring [symmetric])
    finally show ?thesis
      by (simp only: len)
  qed
  ultimately show ?thesis
    using assms(1) by (simp add: print_concentric_square_render)
qed

theorem cell_grid_symmetric_witness:
  "0 <s (2 :: cint) \<and> (0 :: nat) < length (cell_grid 2) \<and> (1 :: nat) < length (cell_grid 2)
   \<and> (2 :: cint) \<le>s 536870912
   \<and> print_concentric_square 2 = render_grid (cell_grid 2)
   \<and> cell_grid 2 ! 1 ! 0 = cell_grid 2 ! 0 ! 1
   \<and> cell_grid 2 ! (length (cell_grid 2) - 1 - 0) ! (length (cell_grid 2) - 1 - 1) = cell_grid 2 ! 0 ! 1"
  using cell_grid_symmetric [of 2 0 1]
  by (simp add: word_sless_alt word_sle_eq cell_grid_length)

text \<open>
  C4 as stated, for every \<open>n \<ge> 1\<close>, fails for the rotation at \<open>n = 2\<^sup>2\<^sup>9 + 1\<close>: the
  first cell \<open>(0, 0)\<close> holds \<open>n\<close>, and the last cell \<open>(2\<^sup>3\<^sup>0, 2\<^sup>3\<^sup>0)\<close>, its image under
  the rotation, holds \<open>-536870911\<close>, because \<open>i + j\<close> wraps there.
\<close>

theorem cell_grid_rotation_overflow:
  "0 <s (536870913 :: cint)
   \<and> (1073741824 :: nat) < length (cell_grid 536870913)
   \<and> length (cell_grid 536870913) - 1 - 1073741824 = 0
   \<and> cell_grid 536870913 ! 0 ! 0 = 536870913
   \<and> cell_grid 536870913 ! 1073741824 ! 1073741824 = - 536870911"
proof -
  have len: "length (cell_grid 536870913) = 1073741825"
    by (simp add: cell_grid_length)
  have "cell_grid 536870913 ! 0 ! 0 = sint (cell_value 536870913 (2 * 536870913 - 1) (of_nat 0) (of_nat 0))"
    by (rule cell_grid_nth) simp_all
  then have a: "cell_grid 536870913 ! 0 ! 0 = 536870913"
    by (simp add: cell_value_def MAX_int_def word_sless_alt)
  have "cell_grid 536870913 ! 1073741824 ! 1073741824
      = sint (cell_value 536870913 (2 * 536870913 - 1) (of_nat 1073741824) (of_nat 1073741824))"
    by (rule cell_grid_nth) simp_all
  then have b: "cell_grid 536870913 ! 1073741824 ! 1073741824 = - 536870911"
    by (simp add: cell_value_def MAX_int_def word_sless_alt)
  show ?thesis
    using len a b by (simp add: word_sless_alt)
qed

text \<open>
  C5. \<open>print_concentric_square 4\<close> writes exactly the seven rows of the 7 by 7
  pattern, every integer followed by one space and every row by a line break.
\<close>

theorem print_concentric_square_4:
  "print_concentric_square 4 =
     ''4 4 4 4 4 4 4 \<newline>''
   @ ''4 3 3 3 3 3 4 \<newline>''
   @ ''4 3 2 2 2 3 4 \<newline>''
   @ ''4 3 2 1 2 3 4 \<newline>''
   @ ''4 3 2 2 2 3 4 \<newline>''
   @ ''4 3 3 3 3 3 4 \<newline>''
   @ ''4 4 4 4 4 4 4 \<newline>''"
  by code_simp

text \<open>
  C6. For every \<open>n \<ge> 1\<close> and every cell \<open>(i, j)\<close> of the grid on the anti-diagonal
  \<open>i + j = m - 1\<close>, \<open>m = 2n - 1\<close>, the formulas of the two regions agree:
  \<open>max(n-i, n-j) = max(i-n, j-n) + 2\<close>. Hence the split that gives the anti-diagonal
  to the lower-right region yields the same value in every cell of the grid. (A grid
  with a cell has \<open>n \<le> 2\<^sup>3\<^sup>0\<close>; beyond, \<open>m\<close> is negative and there is no cell.)
\<close>

theorem anti_diagonal_either_region:
  fixes n i j :: cint
  assumes "0 <s n"
    and "0 \<le>s i" and "i <s 2 * n - 1" and "0 \<le>s j" and "j <s 2 * n - 1"
  shows "(i + j = 2 * n - 1 - 1 \<longrightarrow> MAX_int (n - i) (n - j) = MAX_int (i - n) (j - n) + 2)
    \<and> cell_value_alt n (2 * n - 1) i j = cell_value n (2 * n - 1) i j"
proof -
  have n: "1 \<le> sint n" "sint n \<le> 1073741824"
    using assms grid_nonempty_bound [OF assms(1,2,3)] by (simp_all add: word_sless_alt)
  have m: "sint (2 * n - 1) = 2 * sint n - 1"
    using n by (rule sint_m_pos)
  have i: "0 \<le> sint i" "sint i \<le> 2 * sint n - 2" and j: "0 \<le> sint j" "sint j \<le> 2 * sint n - 2"
    using assms m by (simp_all add: word_sless_alt word_sle_eq)
  have m1: "sint (2 * n - 1 - 1) = sint (2 * n - 1) - 1"
    using n sint_sub_ok [of "2 * n - 1" 1] by (simp add: m int_ok_def)
  have agree: "MAX_int (n - i) (n - j) = MAX_int (i - n) (j - n) + 2" if "i + j = 2 * n - 1 - 1"
    using n i j that by (rule anti_diagonal_formulas)
  have "cell_value_alt n (2 * n - 1) i j = cell_value n (2 * n - 1) i j"
  proof (cases "i + j <s 2 * n - 1 - 1")
    case True
    then have "sint (i + j) < sint (2 * n - 1 - 1)"
      by (simp only: word_sless_alt)
    then have "sint (i + j) < sint (2 * n - 1)"
      unfolding m1 by linarith
    then have "i + j <s 2 * n - 1"
      by (simp only: word_sless_alt)
    with True show ?thesis
      by (simp add: cell_value_alt_def cell_value_def)
  next
    case False
    show ?thesis
    proof (cases "i + j <s 2 * n - 1")
      case True
      have "\<not> sint (i + j) < sint (2 * n - 1 - 1)" "sint (i + j) < sint (2 * n - 1)"
        using True False by (simp_all only: word_sless_alt not_False_eq_True)
      then have "sint (i + j) = sint (2 * n - 1 - 1)"
        unfolding m1 by linarith
      then have "i + j = 2 * n - 1 - 1"
        by (rule sint_inj)
      then show ?thesis
        using True False agree by (simp add: cell_value_alt_def cell_value_def)
    next
      case False
      with \<open>\<not> i + j <s 2 * n - 1 - 1\<close> show ?thesis
        by (simp add: cell_value_alt_def cell_value_def)
    qed
  qed
  with agree show ?thesis
    by simp
qed

theorem anti_diagonal_either_region_witness:
  "0 <s (4 :: cint) \<and> 0 \<le>s (2 :: cint) \<and> (2 :: cint) <s 2 * 4 - 1
   \<and> 0 \<le>s (4 :: cint) \<and> (4 :: cint) <s 2 * 4 - 1 \<and> (2 :: cint) + 4 = 2 * 4 - 1 - 1
   \<and> MAX_int (4 - 2) (4 - 4) = MAX_int (2 - 4) (4 - 4) + 2
   \<and> cell_value_alt 4 (2 * 4 - 1) 2 4 = cell_value 4 (2 * 4 - 1) 2 4"
  using anti_diagonal_either_region [of 4 2 4]
  by (simp add: word_sless_alt word_sle_eq)

text \<open>
  C7. For every \<open>n \<le> 0\<close>, \<open>print_concentric_square n\<close> and \<open>print_triangle n\<close>
  write the error message and nothing else, and return; their callers go on: both
  programs then write the examples and exit with status 0.
\<close>

theorem nonpositive_rejected:
  fixes n :: cint
  assumes "n \<le>s 0"
  shows "print_concentric_square n = ''Error: n must be a positive integer\<newline>''
    \<and> print_triangle n = Some ''Error: n must be a positive integer\<newline>''
    \<and> main_square 1 n =
        (square_banner @ ''\<newline>'' @ visualize_regions n
         @ ''Concentric square pattern:\<newline>''
         @ ''Error: n must be a positive integer\<newline>''
         @ ''\<newline>'' @ square_examples, 0)
    \<and> main_triangle 1 n =
        Some (triangle_banner @ ''\<newline>''
              @ ''Error: n must be a positive integer\<newline>''
              @ ''\<newline>'' @ triangle_examples, 0)"
proof -
  have sq: "print_concentric_square n = ''Error: n must be a positive integer\<newline>''"
    using assms by (simp add: print_concentric_square_def)
  have tr: "print_triangle n = Some ''Error: n must be a positive integer\<newline>''"
    using assms by (simp add: print_triangle_def)
  have "n \<le>s 7"
    using assms by (simp add: word_sle_eq)
  then have "main_square 1 n =
        (square_banner @ ''\<newline>'' @ visualize_regions n
         @ ''Concentric square pattern:\<newline>''
         @ ''Error: n must be a positive integer\<newline>''
         @ ''\<newline>'' @ square_examples, 0)"
    by (simp add: main_square_parsed sq)
  with sq tr main_triangle_parsed [OF tr] show ?thesis
    by simp
qed

theorem nonpositive_rejected_witness:
  "(- 5 :: cint) \<le>s 0
   \<and> print_concentric_square (- 5) = ''Error: n must be a positive integer\<newline>''
   \<and> print_triangle (- 5) = Some ''Error: n must be a positive integer\<newline>''
   \<and> print_concentric_square 0 = ''Error: n must be a positive integer\<newline>''
   \<and> print_triangle 0 = Some ''Error: n must be a positive integer\<newline>''"
  using nonpositive_rejected [of "- 5"] nonpositive_rejected [of 0]
  by (simp add: word_sle_eq)

text \<open>
  C8. In both programs: when \<open>scanf\<close> did not store an integer (it returned
  something other than 1), the program writes the error message after the prompt and
  exits with status 1; when it did, the program exits with status 0, whatever the
  integer is.
\<close>

theorem exit_status:
  "(ret \<noteq> 1 \<longrightarrow>
      main_square ret v =
        (square_banner @ ''Invalid input. Please enter a positive integer.\<newline>'', 1)
      \<and> main_triangle ret v =
        Some (triangle_banner @ ''Invalid input. Please enter a positive integer.\<newline>'', 1))
   \<and> (ret = 1 \<longrightarrow>
      snd (main_square ret v) = 0 \<and> (\<exists>out. main_triangle ret v = Some (out, 0)))"
proof -
  obtain o1 where "print_triangle v = Some o1"
    using print_triangle_returns [of v] by blast
  then have "\<exists>out. main_triangle 1 v = Some (out, 0)"
    using main_triangle_parsed [of v o1] by simp
  then show ?thesis
    by (auto simp: main_square_def main_triangle_def)
qed

theorem exit_status_witness:
  "(0 :: int) \<noteq> 1
   \<and> main_square 0 5 =
        (square_banner @ ''Invalid input. Please enter a positive integer.\<newline>'', 1)
   \<and> main_triangle 0 5 =
        Some (triangle_banner @ ''Invalid input. Please enter a positive integer.\<newline>'', 1)
   \<and> snd (main_square 1 (- 5)) = 0 \<and> (\<exists>out. main_triangle 1 (- 5) = Some (out, 0))"
  using exit_status [of 0 5] exit_status [of 1 "- 5"] by simp

text \<open>
  C9 says that every operation taking \<open>n\<close>, \<open>visualize_regions\<close> included, rejects
  \<open>n \<le> 0\<close> with an error indication. \<open>visualize_regions\<close> has no such check: for
  \<open>n = 0\<close> and \<open>n = -5\<close> it writes its heading and an empty line, and the program,
  which calls it for every parsed value up to 7, writes these before the error message
  of \<open>print_concentric_square\<close>.
\<close>

theorem visualize_regions_no_rejection:
  "visualize_regions 0 = ''Region visualization (U = Upper-left, L = Lower-right):\<newline>\<newline>''
   \<and> visualize_regions (- 5) = ''Region visualization (U = Upper-left, L = Lower-right):\<newline>\<newline>''
   \<and> fst (main_square 1 0) =
       square_banner @ ''\<newline>''
       @ ''Region visualization (U = Upper-left, L = Lower-right):\<newline>\<newline>''
       @ ''Concentric square pattern:\<newline>''
       @ ''Error: n must be a positive integer\<newline>''
       @ ''\<newline>'' @ square_examples"
proof -
  have a: "visualize_regions 0 = ''Region visualization (U = Upper-left, L = Lower-right):\<newline>\<newline>''"
    by (simp add: visualize_regions_def region_rows.simps word_sless_alt)
  have b: "visualize_regions (- 5) = ''Region visualization (U = Upper-left, L = Lower-right):\<newline>\<newline>''"
    by (simp add: visualize_regions_def region_rows.simps word_sless_alt)
  have "print_concentric_square 0 = ''Error: n must be a positive integer\<newline>''"
    by (simp add: print_concentric_square_def)
  then show ?thesis
    using a b by (simp add: main_square_parsed word_sle_eq)
qed

text \<open>
  C10. Whatever integer \<open>v\<close> was parsed, valid or not, each program writes the
  pattern (or the error message) for \<open>v\<close> and then the examples: the patterns of
  sizes 3 and 5 for the square, of sizes 3 and 6 for the triangle, and exits with
  status 0.
\<close>

theorem examples_always_printed:
  "main_square 1 v =
     (square_banner @ ''\<newline>''
      @ (if v \<le>s 7 then visualize_regions v else [])
      @ ''Concentric square pattern:\<newline>''
      @ print_concentric_square v
      @ ''\<newline>'' @ square_examples, 0)
   \<and> square_examples =
       ''\<newline>Examples of other sizes:\<newline>''
       @ ''------------------------\<newline>\<newline>''
       @ ''n = 3:\<newline>'' @ print_concentric_square 3
       @ ''\<newline>n = 5:\<newline>'' @ print_concentric_square 5
   \<and> (\<exists>o1. print_triangle v = Some o1
        \<and> main_triangle 1 v =
            Some (triangle_banner @ ''\<newline>'' @ o1 @ ''\<newline>'' @ triangle_examples, 0))
   \<and> (\<exists>t3 t6. print_triangle 3 = Some t3 \<and> print_triangle 6 = Some t6
        \<and> triangle_examples =
            ''\<newline>Examples of other sizes:\<newline>''
            @ ''------------------------\<newline>\<newline>''
            @ ''n = 3:\<newline>'' @ t3
            @ ''\<newline>n = 6:\<newline>'' @ t6)"
proof -
  obtain o1 where "print_triangle v = Some o1"
    using print_triangle_returns [of v] by blast
  then have tri: "\<exists>o1. print_triangle v = Some o1
        \<and> main_triangle 1 v =
            Some (triangle_banner @ ''\<newline>'' @ o1 @ ''\<newline>'' @ triangle_examples, 0)"
    using main_triangle_parsed [of v o1] by simp
  have sq: "square_examples =
       ''\<newline>Examples of other sizes:\<newline>''
       @ ''------------------------\<newline>\<newline>''
       @ ''n = 3:\<newline>'' @ print_concentric_square 3
       @ ''\<newline>n = 5:\<newline>'' @ print_concentric_square 5"
    by (simp add: square_examples_def square_example_3 square_example_5)
  have ex: "\<exists>t3 t6. print_triangle 3 = Some t3 \<and> print_triangle 6 = Some t6
        \<and> triangle_examples =
            ''\<newline>Examples of other sizes:\<newline>''
            @ ''------------------------\<newline>\<newline>''
            @ ''n = 3:\<newline>'' @ t3
            @ ''\<newline>n = 6:\<newline>'' @ t6"
    by (simp add: triangle_examples_def triangle_example_3 triangle_example_6)
  from main_square_parsed [of v] sq tri ex show ?thesis
    by (intro conjI)
qed

end
